theory Spec2Isabelle
  imports Complex_Main
begin

section \<open>Values and Python helpers\<close>

text \<open>
  The program is \<^verbatim>\<open>src/StabilityGap/stability_gap_example.py\<close>. Accuracy samples are
  finite floats (a percentage, 100 times a fraction of correct answers); they are modelled
  as reals, so the rounding of the float arithmetic is abstracted away. Derived values
  can be not-a-number or infinite (numpy divides by zero without raising), so they live in
  \<open>fval\<close>.
\<close>

datatype error = IndexError | ValueError

datatype fval = Fin real | PInf | NInf | NaN

fun fadd :: "fval \<Rightarrow> fval \<Rightarrow> fval" where
  "fadd (Fin a) (Fin b) = Fin (a + b)"
| "fadd NaN y = NaN"
| "fadd x NaN = NaN"
| "fadd PInf NInf = NaN"
| "fadd NInf PInf = NaN"
| "fadd PInf y = PInf"
| "fadd x PInf = PInf"
| "fadd NInf y = NInf"
| "fadd x NInf = NInf"

fun fneg :: "fval \<Rightarrow> fval" where
  "fneg (Fin a) = Fin (- a)"
| "fneg PInf = NInf"
| "fneg NInf = PInf"
| "fneg NaN = NaN"

definition fsub :: "fval \<Rightarrow> fval \<Rightarrow> fval" where
  "fsub x y = fadd x (fneg y)"

text \<open>
  Division of a float by a finite number (here always a count or a difference of indices),
  as numpy does it: \<open>0 / 0\<close> is nan and \<open>x / 0\<close> is an infinity of the sign of \<open>x\<close>;
  a warning is printed, nothing is raised.
\<close>

fun fdiv :: "fval \<Rightarrow> real \<Rightarrow> fval" where
  "fdiv (Fin a) d =
     (if d = 0 then (if a = 0 then NaN else if 0 < a then PInf else NInf) else Fin (a / d))"
| "fdiv PInf d = (if d < 0 then NInf else PInf)"
| "fdiv NInf d = (if d < 0 then PInf else NInf)"
| "fdiv NaN d = NaN"

text \<open>\<open>x >= y\<close> for a finite \<open>x\<close>: every comparison with nan is false.\<close>

fun fge :: "real \<Rightarrow> fval \<Rightarrow> bool" where
  "fge x (Fin b) = (b \<le> x)"
| "fge x PInf = False"
| "fge x NInf = True"
| "fge x NaN = False"

text \<open>
  A Python slice \<open>xs[a:b]\<close>: a negative bound counts from the end, and both bounds are
  clipped to the sequence.
\<close>

definition py_slice :: "'a list \<Rightarrow> int \<Rightarrow> int \<Rightarrow> 'a list" where
  "py_slice xs a b =
     (let n = int (length xs);
          a' = (if a < 0 then max (a + n) 0 else min a n);
          b' = (if b < 0 then max (b + n) 0 else min b n)
      in take (nat (b' - a')) (drop (nat a') xs))"

text \<open>A loop whose body can raise: the first error ends it.\<close>

fun foldE :: "('a \<Rightarrow> 's \<Rightarrow> error + 's) \<Rightarrow> 'a list \<Rightarrow> 's \<Rightarrow> error + 's" where
  "foldE f [] s = Inr s"
| "foldE f (x # xs) s = (case f x s of Inl e \<Rightarrow> Inl e | Inr s' \<Rightarrow> foldE f xs s')"

fun mapE :: "('a \<Rightarrow> error + 'b) \<Rightarrow> 'a list \<Rightarrow> error + 'b list" where
  "mapE f [] = Inr []"
| "mapE f (x # xs) =
     (case f x of Inl e \<Rightarrow> Inl e
      | Inr y \<Rightarrow> (case mapE f xs of Inl e \<Rightarrow> Inl e | Inr ys \<Rightarrow> Inr (y # ys)))"

text \<open>\<open>np.mean\<close> of a sequence of finite samples; of an empty one it is nan.\<close>

definition np_mean :: "real list \<Rightarrow> fval" where
  "np_mean xs = fdiv (Fin (sum_list xs)) (real (length xs))"

text \<open>
  \<open>np.mean\<close> and \<open>np.nanmean\<close> of a sequence of floats. \<open>np.mean\<close> adds everything
  up, so one nan makes the result nan; \<open>np.nanmean\<close> drops the nans first, and is nan
  when nothing is left.
\<close>

definition fsum :: "fval list \<Rightarrow> fval" where
  "fsum xs = foldl fadd (Fin 0) xs"

definition np_mean_f :: "fval list \<Rightarrow> fval" where
  "np_mean_f xs = fdiv (fsum xs) (real (length xs))"

definition np_nanmean :: "fval list \<Rightarrow> fval" where
  "np_nanmean xs = np_mean_f (filter (\<lambda>x. x \<noteq> NaN) xs)"

section \<open>The performance log\<close>

text \<open>
  \<open>train_and_evaluate\<close> trains for \<open>iters\<close> iterations and, in each of them, appends one
  accuracy sample to the row of every task \<open>index < task_id\<close>. Training and evaluation
  are collaborators: \<open>test_acc task_id iteration index\<close> stands for the fraction
  \<open>test_acc\<close> returns there. The list of test sets has as many entries as the log has
  rows, so an index outside the one is outside the other.
\<close>

type_synonym perf_log = "real list list"

definition append_sample :: "real \<Rightarrow> nat \<Rightarrow> perf_log \<Rightarrow> error + perf_log" where
  "append_sample accuracy index performances =
     (if index < length performances
      then Inr (performances[index := performances ! index @ [accuracy]])
      else Inl IndexError)"

definition train_and_evaluate ::
  "(nat \<Rightarrow> nat \<Rightarrow> nat \<Rightarrow> real) \<Rightarrow> nat \<Rightarrow> nat \<Rightarrow> perf_log \<Rightarrow> error + perf_log" where
  "train_and_evaluate test_acc iters task_id performances =
     foldE (\<lambda>iteration.
              foldE (\<lambda>index. append_sample (100 * test_acc task_id iteration index) index)
                [0..<task_id])
       [1..<iters + 1] performances"

text \<open>One experiment: the tasks are trained in order, task \<open>task_id + 1\<close> (1-indexed) on
  the joint data of all tasks so far.\<close>

definition run_experiment ::
  "(nat \<Rightarrow> nat \<Rightarrow> nat \<Rightarrow> real) \<Rightarrow> nat \<Rightarrow> nat \<Rightarrow> error + perf_log" where
  "run_experiment test_acc n_tasks iters =
     foldE (\<lambda>task_id. train_and_evaluate test_acc iters (task_id + 1))
       [0..<n_tasks] (replicate n_tasks [])"

text \<open>A collaborator that reports 50 percent everywhere (used in examples).\<close>

definition half_acc :: "nat \<Rightarrow> nat \<Rightarrow> nat \<Rightarrow> real" where
  "half_acc task_id iteration index = 1 / 2"

section \<open>The trough and recovery analysis\<close>

text \<open>
  \<open>scipy.ndimage.uniform_filter1d(window, size=sz)\<close> with the library's defaults
  \<open>mode='reflect'\<close> and \<open>origin=0\<close>: output \<open>i\<close> is the sum of the \<open>sz\<close> inputs at
  positions \<open>i - sz div 2\<close>, ... divided by \<open>sz\<close>, where a position outside the
  sequence is read by reflecting about the edge of the last sample
  (\<open>d c b a | a b c d | d c b a\<close>, in the words of the library's documentation).
\<close>

definition reflect_index :: "nat \<Rightarrow> int \<Rightarrow> nat" where
  "reflect_index n k =
     (let m = k mod (2 * int n) in nat (if m < int n then m else 2 * int n - 1 - m))"

definition uniform_filter1d :: "real list \<Rightarrow> nat \<Rightarrow> real list" where
  "uniform_filter1d xs sz =
     map (\<lambda>i. sum_list (map (\<lambda>k. xs ! reflect_index (length xs) (int i - int (sz div 2) + int k))
                          [0..<sz]) / real sz)
       [0..<length xs]"

text \<open>
  \<open>np.argmin\<close>: one pass that keeps the smallest value seen and its index, and replaces
  them only by a strictly smaller value; an empty sequence raises (so an empty window
  ends in an error, whatever the filter makes of it).
\<close>

fun argmin_loop :: "real list \<Rightarrow> nat \<Rightarrow> real \<Rightarrow> nat \<Rightarrow> nat" where
  "argmin_loop [] i mp mi = mi"
| "argmin_loop (x # xs) i mp mi =
     (if x < mp then argmin_loop xs (i + 1) x i else argmin_loop xs (i + 1) mp mi)"

definition np_argmin :: "real list \<Rightarrow> error + nat" where
  "np_argmin xs = (case xs of [] \<Rightarrow> Inl ValueError | x # xs' \<Rightarrow> Inr (argmin_loop xs' 1 x 0))"

text \<open>
  The recovery search \<open>for i in range(min_window_index, iters)\<close>. It returns the last
  value of the cursor \<open>i\<close> and \<open>recovery_window_index\<close> (\<open>None\<close> when the loop ran to
  its end without a \<open>break\<close>); reading \<open>smoothed_window[i]\<close> past the end raises. The
  range is never empty where the program calls it: the trough is an index of the window,
  and the window has at most \<open>iters\<close> samples.
\<close>

function recovery_scan :: "nat \<Rightarrow> real list \<Rightarrow> fval \<Rightarrow> nat \<Rightarrow> error + nat \<times> nat option" where
  "recovery_scan iters smoothed_window smoothed_baseline i =
     (if length smoothed_window \<le> i then Inl IndexError
      else if fge (smoothed_window ! i) smoothed_baseline then Inr (i, Some i)
      else if i + 1 < iters then recovery_scan iters smoothed_window smoothed_baseline (i + 1)
      else Inr (i, None))"
  by pat_completeness auto
termination
  by (relation "measure (\<lambda>(iters, sm, b, i). iters - i)") auto

declare recovery_scan.simps [simp del]

record window_metrics =
  min_window_index :: nat
  recovery_window_index :: nat
  tbp :: nat
  slope_down :: fval
  slope_up :: fval
  gap_depth :: fval
  sr_fixed :: fval

definition window_of :: "nat \<Rightarrow> real list \<Rightarrow> nat \<Rightarrow> real list" where
  "window_of iters performances_task j =
     (let start_index = int iters * (int j + 1);
          end_index_exclusive = start_index + int iters
      in py_slice performances_task start_index end_index_exclusive)"

definition smoothed_window_of :: "nat \<Rightarrow> real list \<Rightarrow> nat \<Rightarrow> real list" where
  "smoothed_window_of iters performances_task j =
     uniform_filter1d (window_of iters performances_task j) 5"

definition smoothed_baseline_of :: "nat \<Rightarrow> real list \<Rightarrow> nat \<Rightarrow> fval" where
  "smoothed_baseline_of iters performances_task j =
     (let baseline_index = int iters * (int j + 1) - 1
      in np_mean (py_slice performances_task (baseline_index - 4) (baseline_index + 1)))"

text \<open>
  The body of the loop over the windows of one task (lines 358 to 418). The value appended
  to \<open>tbp_task\<close> is the cursor \<open>i\<close> the search loop leaves behind. The two tests
  \<open>min_window_index >= 0\<close> and \<open>recovery_window_index is not None\<close> always hold where
  they stand, so their \<open>else\<close> branches are not reached.
\<close>

definition analyse_window :: "nat \<Rightarrow> real list \<Rightarrow> nat \<Rightarrow> error + window_metrics" where
  "analyse_window iters performances_task j =
     (let window = window_of iters performances_task j;
          smoothed_window = smoothed_window_of iters performances_task j
      in case np_argmin smoothed_window of
           Inl e \<Rightarrow> Inl e
         | Inr mwi \<Rightarrow>
             (let smoothed_baseline = smoothed_baseline_of iters performances_task j;
                  window_baseline_index = (- 1 :: int)
              in case recovery_scan iters smoothed_window smoothed_baseline mwi of
                   Inl e \<Rightarrow> Inl e
                 | Inr (i, found) \<Rightarrow>
                     (let rwi = (case found of None \<Rightarrow> iters - 1 | Some r \<Rightarrow> r);
                          distance_to_minimum_in_window = int mwi - window_baseline_index;
                          sd = (if 0 \<le> int mwi
                                then fdiv (fsub (Fin (smoothed_window ! mwi)) smoothed_baseline)
                                       (real_of_int distance_to_minimum_in_window)
                                else NaN);
                          su = fdiv (Fin (smoothed_window ! rwi - smoothed_window ! mwi))
                                 (real_of_int (int rwi - int mwi));
                          gd = fsub smoothed_baseline (Fin (window ! mwi));
                          new_recovery_index =
                            min (2 * distance_to_minimum_in_window) (int (length window) - 1);
                          srf = (if new_recovery_index \<le> int rwi
                                 then fdiv (Fin (smoothed_window ! nat new_recovery_index
                                                 - smoothed_window ! mwi))
                                        (real_of_int distance_to_minimum_in_window)
                                 else fdiv (Fin (smoothed_window ! rwi - smoothed_window ! mwi))
                                        (real_of_int (int rwi - int mwi)))
                      in Inr \<lparr>min_window_index = mwi, recovery_window_index = rwi, tbp = i,
                              slope_down = sd, slope_up = su, gap_depth = gd,
                              sr_fixed = srf\<rparr>)))"

text \<open>
  One task (lines 347 to 431): the windows \<open>j\<close> in \<open>range(n_tasks - task_id - 1)\<close>, then the
  five \<open>np.nanmean\<close>s. One experiment (line 433): \<open>np.mean(..., axis=0)\<close> over the tasks
  \<open>range(n_tasks - 1)\<close>, a plain mean of each of the five columns (with no task at all
  numpy returns one nan where the model has five).
\<close>

definition task_metrics :: "nat \<Rightarrow> nat \<Rightarrow> real list \<Rightarrow> nat \<Rightarrow> error + fval list" where
  "task_metrics iters n_tasks performances_task task_id =
     (case mapE (analyse_window iters performances_task) [0..<n_tasks - task_id - 1] of
        Inl e \<Rightarrow> Inl e
      | Inr ws \<Rightarrow>
          Inr [np_nanmean (map (\<lambda>w. Fin (real (tbp w))) ws),
               np_nanmean (map slope_down ws),
               np_nanmean (map slope_up ws),
               np_nanmean (map gap_depth ws),
               np_nanmean (map sr_fixed ws)])"

definition np_mean_axis0 :: "fval list list \<Rightarrow> fval list" where
  "np_mean_axis0 rows = map (\<lambda>k. np_mean_f (map (\<lambda>r. r ! k) rows)) [0..<5]"

definition tbp_sd_sr_gd_experiment :: "nat \<Rightarrow> nat \<Rightarrow> perf_log \<Rightarrow> error + fval list" where
  "tbp_sd_sr_gd_experiment iters n_tasks accuracies =
     (case mapE (\<lambda>task_id.
                   if task_id < length accuracies
                   then task_metrics iters n_tasks (accuracies ! task_id) task_id
                   else Inl IndexError)
             [0..<n_tasks - 1] of
        Inl e \<Rightarrow> Inl e
      | Inr rows \<Rightarrow> Inr (np_mean_axis0 rows))"

section \<open>The sliding-extremum scan\<close>

text \<open>
  Lines 455 to 476, for one task. The four running maxima start at \<open>-sys.maxsize - 1\<close>
  (\<open>sys.maxsize\<close> is \<open>2 ^ 63 - 1\<close> on a 64-bit platform), the two arrays at the sample
  with index 500. Each later sample is compared with the arrays as they stand, then
  appended to both, and an array that has grown to 11 (to 101) samples loses its oldest
  one. Python's \<open>max\<close> of an empty sequence raises.
\<close>

definition sys_maxsize :: real where
  "sys_maxsize = 2 ^ 63 - 1"

definition py_max :: "real list \<Rightarrow> error + real" where
  "py_max xs = (case xs of [] \<Rightarrow> Inl ValueError | x # xs' \<Rightarrow> Inr (fold max xs' x))"

record scan_state =
  wf_max_10 :: real
  wf_max_100 :: real
  wp_max_10 :: real
  wp_max_100 :: real
  array_to_compare_with_wf_10 :: "real list"
  array_to_compare_with_wf_100 :: "real list"

definition scan_step :: "real \<Rightarrow> scan_state \<Rightarrow> error + scan_state" where
  "scan_step current_accuracy s =
     (case py_max (map (\<lambda>x. x - current_accuracy) (array_to_compare_with_wf_10 s)) of
        Inl e \<Rightarrow> Inl e
      | Inr f10 \<Rightarrow>
     (case py_max (map (\<lambda>x. x - current_accuracy) (array_to_compare_with_wf_100 s)) of
        Inl e \<Rightarrow> Inl e
      | Inr f100 \<Rightarrow>
     (case py_max (map (\<lambda>x. current_accuracy - x) (array_to_compare_with_wf_10 s)) of
        Inl e \<Rightarrow> Inl e
      | Inr p10 \<Rightarrow>
     (case py_max (map (\<lambda>x. current_accuracy - x) (array_to_compare_with_wf_100 s)) of
        Inl e \<Rightarrow> Inl e
      | Inr p100 \<Rightarrow>
          (let a10 = array_to_compare_with_wf_10 s @ [current_accuracy];
               a100 = array_to_compare_with_wf_100 s @ [current_accuracy]
           in Inr \<lparr>wf_max_10 = max (wf_max_10 s) f10,
                   wf_max_100 = max (wf_max_100 s) f100,
                   wp_max_10 = max (wp_max_10 s) p10,
                   wp_max_100 = max (wp_max_100 s) p100,
                   array_to_compare_with_wf_10 = (if length a10 = 11 then drop 1 a10 else a10),
                   array_to_compare_with_wf_100 =
                     (if length a100 = 101 then drop 1 a100 else a100)\<rparr>)))))"

definition scan_init :: "real \<Rightarrow> scan_state" where
  "scan_init first =
     \<lparr>wf_max_10 = - sys_maxsize - 1, wf_max_100 = - sys_maxsize - 1,
      wp_max_10 = - sys_maxsize - 1, wp_max_100 = - sys_maxsize - 1,
      array_to_compare_with_wf_10 = [first], array_to_compare_with_wf_100 = [first]\<rparr>"

definition windowed_scan :: "real list \<Rightarrow> error + scan_state" where
  "windowed_scan row =
     (if length row \<le> 500 then Inl IndexError
      else foldE scan_step (drop 501 row) (scan_init (row ! 500)))"

section \<open>What the specification says, for comparison\<close>

text \<open>
  The smoothing filter in the specification's words: the mean of a sample and up to two
  neighbours on each side, over the real samples only.
\<close>

definition spec_truncated_filter :: "real list \<Rightarrow> real list" where
  "spec_truncated_filter xs =
     map (\<lambda>i. let lo = i - 2; hi = min (length xs) (i + 3)
              in sum_list (take (hi - lo) (drop lo xs)) / real (hi - lo))
       [0..<length xs]"

text \<open>One reflection about the edge: position \<open>-1\<close> reads sample \<open>0\<close>, position \<open>-2\<close> sample
  \<open>1\<close>, position \<open>n\<close> sample \<open>n - 1\<close>, position \<open>n + 1\<close> sample \<open>n - 2\<close>.\<close>

definition mirror_index :: "nat \<Rightarrow> int \<Rightarrow> nat" where
  "mirror_index n k =
     (if k < 0 then nat (- k - 1) else if int n \<le> k then nat (2 * int n - 1 - k) else nat k)"

text \<open>
  The comparisons of the scan for a window size \<open>W\<close>: the pairs of an earlier position \<open>p\<close>
  and a later position \<open>q\<close> at most \<open>W\<close> apart, among the first \<open>n\<close> samples seen.
\<close>

definition trailing_pairs :: "nat \<Rightarrow> nat \<Rightarrow> (nat \<times> nat) set" where
  "trailing_pairs W n = {(p, q). p < q \<and> q < n \<and> q \<le> p + W}"

definition max_drop :: "nat \<Rightarrow> real list \<Rightarrow> real" where
  "max_drop W seen =
     Max (insert (- sys_maxsize - 1)
            ((\<lambda>(p, q). seen ! p - seen ! q) ` trailing_pairs W (length seen)))"

definition max_rise :: "nat \<Rightarrow> real list \<Rightarrow> real" where
  "max_rise W seen =
     Max (insert (- sys_maxsize - 1)
            ((\<lambda>(p, q). seen ! q - seen ! p) ` trailing_pairs W (length seen)))"

text \<open>
  The scan in the specification's words, for one window size \<open>W\<close>: the current sample joins
  the trailing window, the oldest sample leaves when there are more than \<open>W\<close>, and the
  current sample is compared with the earlier samples of that window; the maxima start at
  negative infinity (\<open>None\<close>).
\<close>

fun opt_max :: "real option \<Rightarrow> real \<Rightarrow> real option" where
  "opt_max None d = Some d"
| "opt_max (Some m) d = Some (max m d)"

definition spec_scan_step ::
  "nat \<Rightarrow> real \<Rightarrow> real option \<times> real option \<times> real list
     \<Rightarrow> real option \<times> real option \<times> real list" where
  "spec_scan_step W current st =
     (case st of (bf, bp, window) \<Rightarrow>
        (let w1 = window @ [current];
             w2 = (if W < length w1 then drop 1 w1 else w1);
             earlier = butlast w2
         in (fold (\<lambda>x m. opt_max m (x - current)) earlier bf,
             fold (\<lambda>x m. opt_max m (current - x)) earlier bp,
             w2)))"

definition spec_scan :: "nat \<Rightarrow> real list \<Rightarrow> real option \<times> real option" where
  "spec_scan W seen =
     (case fold (spec_scan_step W) seen (None, None, []) of (bf, bp, window) \<Rightarrow> (bf, bp))"

section \<open>Example rows\<close>

text \<open>
  Two rows of a task with two phases of eight iterations. In \<open>dip_row\<close> the accuracy is 90
  during the task's own phase, then dips to 50 and recovers; in \<open>flat_row\<close> it never moves.
\<close>

definition dip_row :: "real list" where
  "dip_row = [90, 90, 90, 90, 90, 90, 90, 90, 90, 80, 50, 50, 80, 100, 100, 100]"

definition flat_row :: "real list" where
  "flat_row = replicate 16 95"

text \<open>
  Two rows for the sliding-extremum scan, whose first 500 samples are the task's own phase.
  In \<open>scan_row\<close> the accuracy falls from 90 to 85, stays there for ten samples and falls
  to 80. \<open>gap_row\<close> is a row of a run with 500 iterations (two phases): the accuracy is
  95 up to the first sample of the second phase, 90 for the next nine and 85 from then on,
  so that the fall from 95 to 85 spans exactly ten samples.
\<close>

definition scan_row :: "real list" where
  "scan_row = replicate 500 90 @ [90, 85, 85, 85, 85, 85, 85, 85, 85, 85, 85, 80]"

definition gap_row :: "real list" where
  "gap_row = replicate 500 95 @ [95] @ replicate 9 90 @ replicate 490 85"

text \<open>
  The state of the scan once the samples \<open>seen\<close> (from index 500 on) have been read: each
  array holds the last 10 (100) of them, each maximum is the largest difference over the
  pairs at most 10 (100) apart, or the initial value.
\<close>

definition scan_inv :: "real list \<Rightarrow> scan_state \<Rightarrow> bool" where
  "scan_inv seen s \<longleftrightarrow>
     array_to_compare_with_wf_10 s = drop (length seen - 10) seen
     \<and> array_to_compare_with_wf_100 s = drop (length seen - 100) seen
     \<and> wf_max_10 s = max_drop 10 seen \<and> wf_max_100 s = max_drop 100 seen
     \<and> wp_max_10 s = max_rise 10 seen \<and> wp_max_100 s = max_rise 100 seen"

section \<open>Lengths of the rows of the performance log\<close>

lemma foldE_append:
  "foldE f (xs @ ys) s = (case foldE f xs s of Inl e \<Rightarrow> Inl e | Inr s' \<Rightarrow> foldE f ys s')"
  by (induction xs arbitrary: s) (auto split: sum.splits)

lemma eval_loop_lengths:
  "k \<le> length perf \<Longrightarrow>
   \<exists>perf'. foldE (\<lambda>index. append_sample (a index) index) [0..<k] perf = Inr perf'
     \<and> length perf' = length perf
     \<and> (\<forall>j<length perf. length (perf' ! j) = length (perf ! j) + (if j < k then 1 else 0))"
proof (induction k)
  case 0
  then show ?case by simp
next
  case (Suc k)
  then obtain p where p: "foldE (\<lambda>index. append_sample (a index) index) [0..<k] perf = Inr p"
    "length p = length perf"
    "\<forall>j<length perf. length (p ! j) = length (perf ! j) + (if j < k then 1 else 0)"
    by auto
  have k: "k < length p" using Suc.prems p(2) by simp
  have step: "foldE (\<lambda>index. append_sample (a index) index) [0..<Suc k] perf
      = Inr (p[k := p ! k @ [a k]])"
    using p(1) k by (simp add: foldE_append append_sample_def)
  show ?case
    unfolding step using p(2,3) k by (auto simp: nth_list_update)
qed

lemma iter_loop_lengths:
  "t \<le> length perf \<Longrightarrow>
   \<exists>perf'. foldE (\<lambda>iteration. foldE (\<lambda>index. append_sample (a iteration index) index) [0..<t])
             its perf = Inr perf'
     \<and> length perf' = length perf
     \<and> (\<forall>j<length perf. length (perf' ! j) = length (perf ! j) + (if j < t then length its else 0))"
proof (induction its arbitrary: perf)
  case Nil
  then show ?case by simp
next
  case (Cons i its)
  from eval_loop_lengths[OF Cons.prems, of "a i"]
  obtain p where p: "foldE (\<lambda>index. append_sample (a i index) index) [0..<t] perf = Inr p"
    "length p = length perf"
    "\<forall>j<length perf. length (p ! j) = length (perf ! j) + (if j < t then 1 else 0)"
    by auto
  have "t \<le> length p" using Cons.prems p(2) by simp
  from Cons.IH[OF this] obtain q where q:
    "foldE (\<lambda>iteration. foldE (\<lambda>index. append_sample (a iteration index) index) [0..<t]) its p = Inr q"
    "length q = length p"
    "\<forall>j<length p. length (q ! j) = length (p ! j) + (if j < t then length its else 0)"
    by auto
  show ?case using p q by auto
qed

lemma train_and_evaluate_lengths:
  assumes "task_id \<le> length perf"
  shows "\<exists>perf'. train_and_evaluate test_acc iters task_id perf = Inr perf'
     \<and> length perf' = length perf
     \<and> (\<forall>j<length perf. length (perf' ! j) = length (perf ! j) + (if j < task_id then iters else 0))"
proof -
  from iter_loop_lengths[OF assms, of "\<lambda>iteration index. 100 * test_acc task_id iteration index"
      "[1..<iters + 1]"]
  obtain p where p:
    "foldE (\<lambda>iteration. foldE (\<lambda>index. append_sample (100 * test_acc task_id iteration index) index)
        [0..<task_id]) [1..<iters + 1] perf = Inr p"
    "length p = length perf"
    "\<forall>j<length perf. length (p ! j)
       = length (perf ! j) + (if j < task_id then length [1..<iters + 1] else 0)"
    by blast
  have "train_and_evaluate test_acc iters task_id perf = Inr p"
    unfolding train_and_evaluate_def by (rule p(1))
  moreover have "\<forall>j<length perf. length (p ! j)
       = length (perf ! j) + (if j < task_id then iters else 0)"
    using p(3) by (simp del: upt_Suc)
  ultimately show ?thesis using p(2) by blast
qed

lemma task_loop_lengths:
  "m \<le> length perf \<Longrightarrow>
   \<exists>perf'. foldE (\<lambda>task_id. train_and_evaluate test_acc iters (task_id + 1)) [0..<m] perf = Inr perf'
     \<and> length perf' = length perf
     \<and> (\<forall>j<length perf. length (perf' ! j) = length (perf ! j) + iters * (m - j))"
proof (induction m)
  case 0
  then show ?case by simp
next
  case (Suc m)
  then obtain p where p:
    "foldE (\<lambda>task_id. train_and_evaluate test_acc iters (task_id + 1)) [0..<m] perf = Inr p"
    "length p = length perf"
    "\<forall>j<length perf. length (p ! j) = length (perf ! j) + iters * (m - j)"
    by auto
  have "m + 1 \<le> length p" using Suc.prems p(2) by simp
  from train_and_evaluate_lengths[OF this, of test_acc iters] obtain q where q:
    "train_and_evaluate test_acc iters (m + 1) p = Inr q"
    "length q = length p"
    "\<forall>j<length p. length (q ! j) = length (p ! j) + (if j < m + 1 then iters else 0)"
    by auto
  have step: "foldE (\<lambda>task_id. train_and_evaluate test_acc iters (task_id + 1)) [0..<Suc m] perf = Inr q"
    using p(1) q(1) by (simp add: foldE_append)
  have "\<forall>j<length perf. length (q ! j) = length (perf ! j) + iters * (Suc m - j)"
  proof (intro allI impI)
    fix j assume j: "j < length perf"
    show "length (q ! j) = length (perf ! j) + iters * (Suc m - j)"
    proof (cases "j < m + 1")
      case True
      then have "Suc m - j = Suc (m - j)" by simp
      then show ?thesis using q(3) p(2,3) j True by simp
    next
      case False
      then show ?thesis using q(3) p(2,3) j by simp
    qed
  qed
  then show ?case using step q(2) p(2) by simp
qed

lemma experiment_rows:
  "\<exists>perf. run_experiment test_acc n_tasks iters = Inr perf
     \<and> length perf = n_tasks
     \<and> (\<forall>j<n_tasks. length (perf ! j) = iters * (n_tasks - j))"
  using task_loop_lengths[of n_tasks "replicate n_tasks []" test_acc iters]
  unfolding run_experiment_def by simp

text \<open>
  C5 (as amended). In every experiment the row of task \<open>j\<close> (0-based) has length
  \<open>iters * (n_tasks - j)\<close>: the evaluation loop \<open>for index in range(task_id)\<close> runs with
  \<open>task_id = j + 1\<close> while task \<open>j\<close> itself is trained, so the row gets one sample per
  iteration from the task's own training phase on, through every later task.
\<close>

theorem performance_log_row_lengths:
  "\<exists>perf. run_experiment test_acc n_tasks iters = Inr perf
     \<and> length perf = n_tasks
     \<and> (\<forall>j<n_tasks. length (perf ! j) = iters * (n_tasks - j))"
proof -
  have "n_tasks \<le> length (replicate n_tasks ([] :: real list))" by simp
  from task_loop_lengths[OF this, of test_acc iters] obtain perf where perf:
    "foldE (\<lambda>task_id. train_and_evaluate test_acc iters (task_id + 1)) [0..<n_tasks]
       (replicate n_tasks []) = Inr perf"
    "length perf = length (replicate n_tasks ([] :: real list))"
    "\<forall>j<length (replicate n_tasks ([] :: real list)).
       length (perf ! j) = length (replicate n_tasks ([] :: real list) ! j) + iters * (n_tasks - j)"
    by blast
  have "run_experiment test_acc n_tasks iters = Inr perf"
    unfolding run_experiment_def by (rule perf(1))
  moreover have "length perf = n_tasks" using perf(2) by simp
  moreover have "\<forall>j<n_tasks. length (perf ! j) = iters * (n_tasks - j)"
    using perf(3) by simp
  ultimately show ?thesis by blast
qed

theorem performance_log_row_lengths_witness:
  "\<exists>perf. run_experiment half_acc 2 6 = Inr perf \<and> length perf = 2
     \<and> length (perf ! 0) = 6 * (2 - 0) \<and> length (perf ! 1) = 6 * (2 - 1)"
  using performance_log_row_lengths[of half_acc 2 6] by (auto simp: numeral_2_eq_2)

text \<open>
  C5 as stated fails: with two tasks of six iterations the row of task 0 has twelve
  samples, six of them from its own training phase, where the claim gives
  \<open>6 * (2 - 0 - 1) = 6\<close>.
\<close>

theorem row_length_counterexample:
  "run_experiment half_acc 2 6
     = Inr [[50, 50, 50, 50, 50, 50, 50, 50, 50, 50, 50, 50], [50, 50, 50, 50, 50, 50]]
   \<and> length ([[50, 50, 50, 50, 50, 50, 50, 50, 50, 50, 50, 50],
               [50 :: real, 50, 50, 50, 50, 50]] ! 0)
       \<noteq> 6 * (2 - 0 - 1)"
  by code_simp

section \<open>The analysis of one window\<close>

lemma window_of_full:
  assumes "iters * (j + 2) \<le> length row"
  shows "window_of iters row j = take iters (drop (iters * (j + 1)) row)"
proof -
  define s where "s = iters * (j + 1)"
  have e: "int iters * (int j + 1) = int s" by (simp add: s_def algebra_simps)
  have le: "s + iters \<le> length row" using assms by (simp add: s_def algebra_simps)
  have "window_of iters row j = take iters (drop s row)"
    unfolding window_of_def py_slice_def Let_def e using le by simp
  then show ?thesis by (simp only: s_def)
qed

lemma length_window_of_full:
  assumes "iters * (j + 2) \<le> length row"
  shows "length (window_of iters row j) = iters"
proof -
  have "iters * (j + 1) + iters \<le> length row" using assms by (simp add: algebra_simps)
  then show ?thesis by (simp add: window_of_full[OF assms])
qed

lemma length_uniform_filter1d: "length (uniform_filter1d xs sz) = length xs"
  by (simp add: uniform_filter1d_def)

lemma argmin_loop_correct:
  "length pre = i \<Longrightarrow> mi < i \<Longrightarrow> pre ! mi = mp \<Longrightarrow> \<forall>k<i. mp \<le> pre ! k
     \<Longrightarrow> \<forall>k<mi. mp < pre ! k
     \<Longrightarrow> argmin_loop xs i mp mi < length (pre @ xs)
       \<and> (\<forall>k<length (pre @ xs). (pre @ xs) ! argmin_loop xs i mp mi \<le> (pre @ xs) ! k)
       \<and> (\<forall>k<argmin_loop xs i mp mi. (pre @ xs) ! argmin_loop xs i mp mi < (pre @ xs) ! k)"
proof (induction xs arbitrary: pre i mp mi)
  case Nil
  then show ?case by simp
next
  case (Cons x xs)
  show ?case
  proof (cases "x < mp")
    case True
    have a: "length (pre @ [x]) = i + 1" using Cons.prems(1) by simp
    have b: "i < i + 1" by simp
    have c: "(pre @ [x]) ! i = x" using Cons.prems(1) by (simp add: nth_append)
    have old: "x < pre ! k" if "k < i" for k
    proof -
      have "mp \<le> pre ! k" using Cons.prems(4) that by simp
      then show ?thesis using True by simp
    qed
    have d: "\<forall>k<i + 1. x \<le> (pre @ [x]) ! k"
    proof (intro allI impI)
      fix k assume "k < i + 1"
      then consider "k < i" | "k = i" by linarith
      then show "x \<le> (pre @ [x]) ! k"
      proof cases
        case 1
        then show ?thesis using old[OF 1] Cons.prems(1) by (simp add: nth_append)
      next
        case 2
        then show ?thesis using Cons.prems(1) by (simp add: nth_append)
      qed
    qed
    have e: "\<forall>k<i. x < (pre @ [x]) ! k"
      using old Cons.prems(1) by (simp add: nth_append)
    from Cons.IH[OF a b c d e] True show ?thesis by simp
  next
    case False
    have a: "length (pre @ [x]) = i + 1" using Cons.prems(1) by simp
    have b: "mi < i + 1" using Cons.prems(2) by simp
    have c: "(pre @ [x]) ! mi = mp" using Cons.prems(1,2,3) by (simp add: nth_append)
    have d: "\<forall>k<i + 1. mp \<le> (pre @ [x]) ! k"
      using Cons.prems(1,4) False by (auto simp: nth_append less_Suc_eq)
    have e: "\<forall>k<mi. mp < (pre @ [x]) ! k"
      using Cons.prems(1,2,5) by (auto simp: nth_append)
    from Cons.IH[OF a b c d e] False show ?thesis by simp
  qed
qed

lemma np_argmin_correct:
  assumes "xs \<noteq> []"
  shows "\<exists>r. np_argmin xs = Inr r \<and> r < length xs \<and> (\<forall>k<length xs. xs ! r \<le> xs ! k)
           \<and> (\<forall>k<r. xs ! r < xs ! k)"
proof -
  from assms obtain x xs' where xs: "xs = x # xs'" by (cases xs) auto
  have "argmin_loop xs' 1 x 0 < length ([x] @ xs')
       \<and> (\<forall>k<length ([x] @ xs'). ([x] @ xs') ! argmin_loop xs' 1 x 0 \<le> ([x] @ xs') ! k)
       \<and> (\<forall>k<argmin_loop xs' 1 x 0. ([x] @ xs') ! argmin_loop xs' 1 x 0 < ([x] @ xs') ! k)"
    by (rule argmin_loop_correct) simp_all
  then show ?thesis by (simp add: np_argmin_def xs)
qed

lemma recovery_scan_correct:
  "i < iters \<Longrightarrow> iters \<le> length sm \<Longrightarrow>
   \<exists>c found. recovery_scan iters sm b i = Inr (c, found) \<and> i \<le> c \<and> c < iters
      \<and> (\<forall>k. i \<le> k \<and> k < c \<longrightarrow> \<not> fge (sm ! k) b)
      \<and> (found = Some c \<and> fge (sm ! c) b \<or> found = None \<and> c = iters - 1 \<and> \<not> fge (sm ! c) b)"
proof (induction iters sm b i rule: recovery_scan.induct)
  case (1 iters sm b i)
  show ?case
  proof (cases "fge (sm ! i) b")
    case True
    then show ?thesis using "1.prems" by (subst recovery_scan.simps) auto
  next
    case False
    show ?thesis
    proof (cases "i + 1 < iters")
      case True
      have n: "\<not> length sm \<le> i" using "1.prems" by simp
      from "1.IH"[OF n False True True "1.prems"(2)]
      obtain c found where c: "recovery_scan iters sm b (i + 1) = Inr (c, found)"
        "i + 1 \<le> c" "c < iters" "\<forall>k. i + 1 \<le> k \<and> k < c \<longrightarrow> \<not> fge (sm ! k) b"
        "found = Some c \<and> fge (sm ! c) b \<or> found = None \<and> c = iters - 1 \<and> \<not> fge (sm ! c) b"
        by blast
      have eq: "recovery_scan iters sm b i = Inr (c, found)"
        using n False True c(1) by (subst recovery_scan.simps) simp
      have "\<forall>k. i \<le> k \<and> k < c \<longrightarrow> \<not> fge (sm ! k) b"
      proof (intro allI impI)
        fix k assume k: "i \<le> k \<and> k < c"
        show "\<not> fge (sm ! k) b"
        proof (cases "k = i")
          case True then show ?thesis using False by simp
        next
          case False then show ?thesis using k c(4) by simp
        qed
      qed
      then show ?thesis using eq c(2,3,5) by (intro exI[of _ c] exI[of _ found]) simp
    next
      case F2: False
      then have "i = iters - 1" using "1.prems" by simp
      then show ?thesis using "1.prems" False F2 by (subst recovery_scan.simps) auto
    qed
  qed
qed

lemma analyse_window_full:
  assumes "0 < iters" and "iters * (j + 2) \<le> length row"
  shows "\<exists>m. analyse_window iters row j = Inr m
     \<and> length (smoothed_window_of iters row j) = iters
     \<and> min_window_index m < iters
     \<and> (\<forall>k<iters. smoothed_window_of iters row j ! min_window_index m
                     \<le> smoothed_window_of iters row j ! k)
     \<and> (\<forall>k<min_window_index m. smoothed_window_of iters row j ! min_window_index m
                     < smoothed_window_of iters row j ! k)
     \<and> min_window_index m \<le> recovery_window_index m
     \<and> recovery_window_index m < iters
     \<and> (\<forall>k. min_window_index m \<le> k \<and> k < recovery_window_index m
            \<longrightarrow> \<not> fge (smoothed_window_of iters row j ! k) (smoothed_baseline_of iters row j))
     \<and> (fge (smoothed_window_of iters row j ! recovery_window_index m)
             (smoothed_baseline_of iters row j)
          \<or> recovery_window_index m = iters - 1)
     \<and> tbp m = recovery_window_index m
     \<and> slope_down m = fdiv (fsub (Fin (smoothed_window_of iters row j ! min_window_index m))
                               (smoothed_baseline_of iters row j))
                         (real (min_window_index m + 1))
     \<and> slope_up m = fdiv (Fin (smoothed_window_of iters row j ! recovery_window_index m
                               - smoothed_window_of iters row j ! min_window_index m))
                       (real (recovery_window_index m) - real (min_window_index m))
     \<and> gap_depth m = fsub (smoothed_baseline_of iters row j)
                        (Fin (window_of iters row j ! min_window_index m))
     \<and> sr_fixed m =
         (if min (2 * (min_window_index m + 1)) (iters - 1) \<le> recovery_window_index m
          then fdiv (Fin (smoothed_window_of iters row j ! min (2 * (min_window_index m + 1)) (iters - 1)
                          - smoothed_window_of iters row j ! min_window_index m))
                 (real (min_window_index m + 1))
          else fdiv (Fin (smoothed_window_of iters row j ! recovery_window_index m
                          - smoothed_window_of iters row j ! min_window_index m))
                 (real (recovery_window_index m) - real (min_window_index m)))"
proof -
  let ?sm = "smoothed_window_of iters row j"
  let ?b = "smoothed_baseline_of iters row j"
  let ?w = "window_of iters row j"
  have lw: "length ?w = iters" by (rule length_window_of_full[OF assms(2)])
  have ls: "length ?sm = iters" by (simp add: smoothed_window_of_def length_uniform_filter1d lw)
  then have "?sm \<noteq> []" using assms(1) by auto
  from np_argmin_correct[OF this] obtain mwi where mwi:
    "np_argmin ?sm = Inr mwi" "mwi < iters" "\<forall>k<iters. ?sm ! mwi \<le> ?sm ! k"
    "\<forall>k<mwi. ?sm ! mwi < ?sm ! k"
    using ls by auto
  have "iters \<le> length ?sm" using ls by simp
  from recovery_scan_correct[OF mwi(2) this, of ?b] obtain c found where c:
    "recovery_scan iters ?sm ?b mwi = Inr (c, found)" "mwi \<le> c" "c < iters"
    "\<forall>k. mwi \<le> k \<and> k < c \<longrightarrow> \<not> fge (?sm ! k) ?b"
    "found = Some c \<and> fge (?sm ! c) ?b \<or> found = None \<and> c = iters - 1 \<and> \<not> fge (?sm ! c) ?b"
    by blast
  have r: "(case found of None \<Rightarrow> iters - 1 | Some r \<Rightarrow> r) = c" using c(5) by auto
  define nri where "nri = min (2 * (mwi + 1)) (iters - 1)"
  have m1: "min (2 * (int mwi - - 1)) (int iters - 1) = int nri"
    unfolding nri_def using assms(1) by auto
  have m2: "real_of_int (int c - int mwi) = real c - real mwi" by simp
  have m3: "real_of_int (int mwi - - 1) = real (mwi + 1)" by simp
  define m where "m = \<lparr>min_window_index = mwi, recovery_window_index = c, tbp = c,
      slope_down = fdiv (fsub (Fin (?sm ! mwi)) ?b) (real (mwi + 1)),
      slope_up = fdiv (Fin (?sm ! c - ?sm ! mwi)) (real c - real mwi),
      gap_depth = fsub ?b (Fin (?w ! mwi)),
      sr_fixed = (if nri \<le> c then fdiv (Fin (?sm ! nri - ?sm ! mwi)) (real (mwi + 1))
                  else fdiv (Fin (?sm ! c - ?sm ! mwi)) (real c - real mwi))\<rparr>"
  have eq: "analyse_window iters row j = Inr m"
    unfolding analyse_window_def Let_def
    by (simp only: mwi(1) c(1) r lw m1 m2 m3 sum.case prod.case nat_int m_def) simp
  have f1: "min_window_index m < iters" by (simp add: m_def mwi(2))
  have f2: "\<forall>k<iters. ?sm ! min_window_index m \<le> ?sm ! k" using mwi(3) by (simp add: m_def)
  have f3: "\<forall>k<min_window_index m. ?sm ! min_window_index m < ?sm ! k"
    using mwi(4) by (simp add: m_def)
  have f4: "min_window_index m \<le> recovery_window_index m" by (simp add: m_def c(2))
  have f5: "recovery_window_index m < iters" by (simp add: m_def c(3))
  have f6: "\<forall>k. min_window_index m \<le> k \<and> k < recovery_window_index m \<longrightarrow> \<not> fge (?sm ! k) ?b"
    using c(4) by (simp add: m_def)
  have f7: "fge (?sm ! recovery_window_index m) ?b \<or> recovery_window_index m = iters - 1"
    using c(5) by (auto simp: m_def)
  have f8: "tbp m = recovery_window_index m" by (simp add: m_def)
  have f9: "slope_down m = fdiv (fsub (Fin (?sm ! min_window_index m)) ?b)
      (real (min_window_index m + 1))"
    by (simp add: m_def)
  have f10: "slope_up m = fdiv (Fin (?sm ! recovery_window_index m - ?sm ! min_window_index m))
      (real (recovery_window_index m) - real (min_window_index m))"
    by (simp add: m_def)
  have f11: "gap_depth m = fsub ?b (Fin (?w ! min_window_index m))" by (simp add: m_def)
  have f12: "sr_fixed m =
         (if min (2 * (min_window_index m + 1)) (iters - 1) \<le> recovery_window_index m
          then fdiv (Fin (?sm ! min (2 * (min_window_index m + 1)) (iters - 1)
                          - ?sm ! min_window_index m))
                 (real (min_window_index m + 1))
          else fdiv (Fin (?sm ! recovery_window_index m - ?sm ! min_window_index m))
                 (real (recovery_window_index m) - real (min_window_index m)))"
    by (simp add: m_def nri_def)
  show ?thesis
    by (rule exI[of _ m]) (intro conjI; fact)
qed

lemma smoothed_min_eq:
  assumes "length sm = n" "t < n" "\<forall>k<n. sm ! t \<le> sm ! k"
  shows "sm ! t = Min (set sm)"
proof -
  have "sm ! t \<in> set sm" using assms(1,2) by simp
  moreover have "\<forall>y\<in>set sm. sm ! t \<le> y" using assms(1,3) by (auto simp: in_set_conv_nth)
  ultimately show ?thesis by (intro Min_eqI[symmetric]) auto
qed

lemma length_dip_row: "length dip_row = 16"
  by (simp add: dip_row_def)

lemma length_flat_row: "length flat_row = 16"
  by (simp add: flat_row_def)

text \<open>
  The theorems below are about a window that lies in its row, \<open>iters * (j + 2) \<le> length row\<close>,
  and the scan's about a row of more than 500 samples. Every window the program analyses
  and every row it scans is one: the row of task \<open>t\<close> has \<open>iters * (n_tasks - t)\<close>
  samples, the tasks are \<open>t < n_tasks - 1\<close> and their windows \<open>j < n_tasks - t - 1\<close>.
\<close>

lemma analysed_windows_are_full:
  assumes "run_experiment test_acc n_tasks iters = Inr perf"
    and "t < n_tasks - 1" and "j < n_tasks - t - 1"
  shows "iters * (j + 2) \<le> length (perf ! t)"
proof -
  have "t < n_tasks" using assms(2) by simp
  then have "length (perf ! t) = iters * (n_tasks - t)"
    using experiment_rows[of test_acc n_tasks iters] assms(1) by auto
  moreover have "j + 2 \<le> n_tasks - t" using assms(3) by simp
  then have "iters * (j + 2) \<le> iters * (n_tasks - t)" by (rule mult_le_mono2)
  ultimately show ?thesis by (simp only:)
qed

lemma scanned_rows_are_long:
  assumes "run_experiment test_acc n_tasks 500 = Inr perf" and "t < n_tasks - 1"
  shows "500 < length (perf ! t)"
proof -
  have "500 * (0 + 2) \<le> length (perf ! t)"
    using assms by (intro analysed_windows_are_full[of test_acc n_tasks 500 perf t 0]) simp_all
  then show ?thesis by simp
qed

text \<open>
  C8. For every window, the analysis returns, \<open>0 \<le> trough_index < iters\<close>,
  \<open>trough_index \<le> recovery_index \<le> iters - 1\<close> (whether the search found the recovery or
  ran to its end), and the trough is the first index that attains the minimum of the
  smoothed window.
\<close>

theorem trough_and_recovery_bounds:
  assumes "0 < iters" and "iters * (j + 2) \<le> length row"
  shows "\<exists>m. analyse_window iters row j = Inr m
     \<and> 0 \<le> min_window_index m \<and> min_window_index m < iters
     \<and> min_window_index m \<le> recovery_window_index m
     \<and> recovery_window_index m \<le> iters - 1
     \<and> smoothed_window_of iters row j ! min_window_index m
         = Min (set (smoothed_window_of iters row j))
     \<and> (\<forall>k<min_window_index m.
           smoothed_window_of iters row j ! k \<noteq> Min (set (smoothed_window_of iters row j)))"
proof -
  let ?sm = "smoothed_window_of iters row j"
  from analyse_window_full[OF assms] obtain m where m:
    "analyse_window iters row j = Inr m" "length ?sm = iters" "min_window_index m < iters"
    "\<forall>k<iters. ?sm ! min_window_index m \<le> ?sm ! k"
    "\<forall>k<min_window_index m. ?sm ! min_window_index m < ?sm ! k"
    "min_window_index m \<le> recovery_window_index m" "recovery_window_index m < iters"
    by blast
  have mn: "?sm ! min_window_index m = Min (set ?sm)"
    by (rule smoothed_min_eq[OF m(2,3,4)])
  have first: "\<forall>k<min_window_index m. ?sm ! k \<noteq> Min (set ?sm)"
    using m(5) unfolding mn[symmetric] by auto
  have "recovery_window_index m \<le> iters - 1" using m(7) by simp
  then show ?thesis using m(1,3,6) mn first by blast
qed

theorem trough_and_recovery_bounds_witness:
  "0 < (8::nat) \<and> 8 * (0 + 2) \<le> length dip_row \<and>
   (\<exists>m. analyse_window 8 dip_row 0 = Inr m
     \<and> 0 \<le> min_window_index m \<and> min_window_index m < 8
     \<and> min_window_index m \<le> recovery_window_index m
     \<and> recovery_window_index m \<le> 8 - 1
     \<and> smoothed_window_of 8 dip_row 0 ! min_window_index m
         = Min (set (smoothed_window_of 8 dip_row 0))
     \<and> (\<forall>k<min_window_index m.
           smoothed_window_of 8 dip_row 0 ! k \<noteq> Min (set (smoothed_window_of 8 dip_row 0))))"
  using trough_and_recovery_bounds[of 8 0 dip_row] length_dip_row by simp

text \<open>
  C1 (as amended). The value appended to \<open>tbp_task\<close> for a window is the recovery index
  itself: the first index at or after the trough whose smoothed value is at least the
  baseline, or \<open>iters - 1\<close> when there is none. The trough index is not subtracted.
\<close>

theorem tbp_is_recovery_index:
  assumes "0 < iters" and "iters * (j + 2) \<le> length row"
  shows "\<exists>m. analyse_window iters row j = Inr m
     \<and> tbp m = recovery_window_index m
     \<and> min_window_index m \<le> recovery_window_index m
     \<and> recovery_window_index m \<le> iters - 1
     \<and> (\<forall>k. min_window_index m \<le> k \<and> k < recovery_window_index m
            \<longrightarrow> \<not> fge (smoothed_window_of iters row j ! k) (smoothed_baseline_of iters row j))
     \<and> (fge (smoothed_window_of iters row j ! recovery_window_index m)
             (smoothed_baseline_of iters row j)
          \<or> recovery_window_index m = iters - 1)"
proof -
  from analyse_window_full[OF assms] obtain m where m:
    "analyse_window iters row j = Inr m"
    "min_window_index m \<le> recovery_window_index m" "recovery_window_index m < iters"
    "\<forall>k. min_window_index m \<le> k \<and> k < recovery_window_index m
            \<longrightarrow> \<not> fge (smoothed_window_of iters row j ! k) (smoothed_baseline_of iters row j)"
    "fge (smoothed_window_of iters row j ! recovery_window_index m)
             (smoothed_baseline_of iters row j)
          \<or> recovery_window_index m = iters - 1"
    "tbp m = recovery_window_index m"
    by blast
  have "recovery_window_index m \<le> iters - 1" using m(3) by simp
  then show ?thesis using m(1,2,4,5,6) by blast
qed

theorem tbp_is_recovery_index_witness:
  "0 < (8::nat) \<and> 8 * (0 + 2) \<le> length dip_row \<and>
   (\<exists>m. analyse_window 8 dip_row 0 = Inr m
     \<and> tbp m = recovery_window_index m
     \<and> min_window_index m \<le> recovery_window_index m
     \<and> recovery_window_index m \<le> 8 - 1
     \<and> (\<forall>k. min_window_index m \<le> k \<and> k < recovery_window_index m
            \<longrightarrow> \<not> fge (smoothed_window_of 8 dip_row 0 ! k) (smoothed_baseline_of 8 dip_row 0))
     \<and> (fge (smoothed_window_of 8 dip_row 0 ! recovery_window_index m)
             (smoothed_baseline_of 8 dip_row 0)
          \<or> recovery_window_index m = 8 - 1))"
  using tbp_is_recovery_index[of 8 0 dip_row] length_dip_row by simp

text \<open>
  C1 as stated fails: in the window of \<open>dip_row\<close> the smoothed values are
  78, 72, 70, 72, 76, 86, 96, 100 and the baseline is 90, so the trough is at index 2 and
  the recovery at index 6; the value appended is 6, not \<open>6 - 2 = 4\<close>.
\<close>

theorem tbp_counterexample:
  "map_sum id (\<lambda>m. (tbp m, recovery_window_index m, min_window_index m))
     (analyse_window 8 dip_row 0) = Inr (6, 6, 2)
   \<and> (6 :: nat) \<noteq> 6 - 2"
  by code_simp

text \<open>
  C7. For every window, \<open>slope_recovery\<close> is the rise of the smoothed window from the
  trough to the recovery index over the distance between them when the recovery index is
  past the trough, and it is not-a-number, with nothing raised and no default put in its
  place, when the two indices coincide.
\<close>

theorem slope_recovery_value:
  assumes "0 < iters" and "iters * (j + 2) \<le> length row"
  shows "\<exists>m. analyse_window iters row j = Inr m
     \<and> min_window_index m \<le> recovery_window_index m
     \<and> (min_window_index m < recovery_window_index m \<longrightarrow>
          slope_up m = Fin ((smoothed_window_of iters row j ! recovery_window_index m
                             - smoothed_window_of iters row j ! min_window_index m)
                            / (real (recovery_window_index m) - real (min_window_index m))))
     \<and> (recovery_window_index m = min_window_index m \<longrightarrow> slope_up m = NaN)"
proof -
  from analyse_window_full[OF assms] obtain m where m:
    "analyse_window iters row j = Inr m"
    "min_window_index m \<le> recovery_window_index m"
    "slope_up m = fdiv (Fin (smoothed_window_of iters row j ! recovery_window_index m
                               - smoothed_window_of iters row j ! min_window_index m))
                       (real (recovery_window_index m) - real (min_window_index m))"
    by blast
  show ?thesis
    by (rule exI[of _ m]) (simp add: m)
qed

theorem slope_recovery_value_witness:
  "0 < (8::nat) \<and> 8 * (0 + 2) \<le> length dip_row \<and> 8 * (0 + 2) \<le> length flat_row
   \<and> map_sum id (\<lambda>m. (min_window_index m, recovery_window_index m, slope_up m))
        (analyse_window 8 dip_row 0) = Inr (2, 6, Fin (13 / 2))
   \<and> map_sum id (\<lambda>m. (min_window_index m, recovery_window_index m, slope_up m))
        (analyse_window 8 flat_row 0) = Inr (0, 0, NaN)
   \<and> (\<exists>m. analyse_window 8 flat_row 0 = Inr m
     \<and> min_window_index m \<le> recovery_window_index m
     \<and> (min_window_index m < recovery_window_index m \<longrightarrow>
          slope_up m = Fin ((smoothed_window_of 8 flat_row 0 ! recovery_window_index m
                             - smoothed_window_of 8 flat_row 0 ! min_window_index m)
                            / (real (recovery_window_index m) - real (min_window_index m))))
     \<and> (recovery_window_index m = min_window_index m \<longrightarrow> slope_up m = NaN))"
proof -
  have a: "map_sum id (\<lambda>m. (min_window_index m, recovery_window_index m, slope_up m))
        (analyse_window 8 dip_row 0) = Inr (2, 6, Fin (13 / 2))"
    by code_simp
  have b: "map_sum id (\<lambda>m. (min_window_index m, recovery_window_index m, slope_up m))
        (analyse_window 8 flat_row 0) = Inr (0, 0, NaN)"
    by code_simp
  show ?thesis
    using slope_recovery_value[of 8 0 flat_row] length_dip_row length_flat_row a b by simp
qed

text \<open>
  C6. For every window, with \<open>distance_to_trough = trough_index + 1\<close> and
  \<open>fixed_recovery_index = min (2 * distance_to_trough) (iters - 1)\<close>:
  \<open>slope_recovery_fixed\<close> is the rise from the trough to \<open>fixed_recovery_index\<close> over
  \<open>distance_to_trough\<close> when \<open>fixed_recovery_index \<le> recovery_index\<close>, and otherwise the
  rise from the trough to \<open>recovery_index\<close> over \<open>recovery_index - trough_index\<close>
  (a numpy division).
\<close>

theorem slope_recovery_fixed_value:
  assumes "0 < iters" and "iters * (j + 2) \<le> length row"
  shows "\<exists>m. analyse_window iters row j = Inr m
     \<and> sr_fixed m =
         (let trough_index = min_window_index m;
              recovery_index = recovery_window_index m;
              smoothed = smoothed_window_of iters row j;
              distance_to_trough = trough_index + 1;
              fixed_recovery_index = min (2 * distance_to_trough) (iters - 1)
          in if fixed_recovery_index \<le> recovery_index
             then Fin ((smoothed ! fixed_recovery_index - smoothed ! trough_index)
                       / real distance_to_trough)
             else fdiv (Fin (smoothed ! recovery_index - smoothed ! trough_index))
                    (real recovery_index - real trough_index))"
proof -
  from analyse_window_full[OF assms] obtain m where m:
    "analyse_window iters row j = Inr m"
    "sr_fixed m =
         (if min (2 * (min_window_index m + 1)) (iters - 1) \<le> recovery_window_index m
          then fdiv (Fin (smoothed_window_of iters row j ! min (2 * (min_window_index m + 1)) (iters - 1)
                          - smoothed_window_of iters row j ! min_window_index m))
                 (real (min_window_index m + 1))
          else fdiv (Fin (smoothed_window_of iters row j ! recovery_window_index m
                          - smoothed_window_of iters row j ! min_window_index m))
                 (real (recovery_window_index m) - real (min_window_index m)))"
    by blast
  have nz: "real (min_window_index m + 1) \<noteq> 0" by simp
  show ?thesis
    by (rule exI[of _ m]) (simp add: m(1) m(2) Let_def del: of_nat_add of_nat_Suc)
qed

theorem slope_recovery_fixed_value_witness:
  "0 < (8::nat) \<and> 8 * (0 + 2) \<le> length dip_row
   \<and> map_sum id sr_fixed (analyse_window 8 dip_row 0) = Inr (Fin (26 / 3))
   \<and> (\<exists>m. analyse_window 8 dip_row 0 = Inr m
     \<and> sr_fixed m =
         (let trough_index = min_window_index m;
              recovery_index = recovery_window_index m;
              smoothed = smoothed_window_of 8 dip_row 0;
              distance_to_trough = trough_index + 1;
              fixed_recovery_index = min (2 * distance_to_trough) (8 - 1)
          in if fixed_recovery_index \<le> recovery_index
             then Fin ((smoothed ! fixed_recovery_index - smoothed ! trough_index)
                       / real distance_to_trough)
             else fdiv (Fin (smoothed ! recovery_index - smoothed ! trough_index))
                    (real recovery_index - real trough_index)))"
proof -
  have a: "map_sum id sr_fixed (analyse_window 8 dip_row 0) = Inr (Fin (26 / 3))"
    by code_simp
  show ?thesis
    using slope_recovery_fixed_value[of 8 0 dip_row] length_dip_row a by simp
qed

section \<open>The means over windows and tasks\<close>

text \<open>
  C3. The claim asks for a NaN-aware mean over the tasks of an experiment, as the mean over
  the windows of a task is. The program takes \<open>np.nanmean\<close> over the windows (line 431)
  but the plain \<open>np.mean(..., axis=0)\<close> over the tasks (line 433). Below, three tasks of
  eight iterations: task 0 has a window with a recovery slope of 13/2 and a degenerate one,
  and its NaN-aware mean is 13/2; the only window of task 1 is degenerate, so its slope is
  nan; the mean over the two tasks is nan, where the claim gives 13/2.
\<close>

theorem per_trial_mean_propagates_nan:
  "task_metrics 8 3 (dip_row @ replicate 8 100) 0
     = Inr [Fin 3, Fin (11 / 3), Fin (13 / 2), Fin 13, Fin (26 / 3)]
   \<and> task_metrics 8 3 flat_row 1 = Inr [Fin 0, Fin 0, NaN, Fin 0, NaN]
   \<and> tbp_sd_sr_gd_experiment 8 3 [dip_row @ replicate 8 100, flat_row, replicate 8 95]
     = Inr [Fin (3 / 2), Fin (11 / 6), NaN, Fin (13 / 2), NaN]"
  by code_simp

section \<open>The smoothing filter\<close>

lemma upt_0_5: "[0..<5] = [0, 1, 2, 3, 4]"
  by (simp add: upt_rec)

lemma reflect_index_eq_mirror:
  assumes "- int n \<le> k" and "k < 2 * int n"
  shows "reflect_index n k = mirror_index n k"
proof -
  consider "k < 0" | "0 \<le> k" "k < int n" | "int n \<le> k" by linarith
  then show ?thesis
  proof cases
    case 1
    have "k mod (2 * int n) = (k + 2 * int n) mod (2 * int n)" by simp
    also have "\<dots> = k + 2 * int n" using assms 1 by (intro mod_pos_pos_trivial) auto
    finally have m: "k mod (2 * int n) = k + 2 * int n" .
    show ?thesis unfolding reflect_index_def mirror_index_def Let_def m using assms 1 by auto
  next
    case 2
    then have m: "k mod (2 * int n) = k" by (intro mod_pos_pos_trivial) auto
    show ?thesis unfolding reflect_index_def mirror_index_def Let_def m using 2 by auto
  next
    case 3
    then have m: "k mod (2 * int n) = k" using assms by (intro mod_pos_pos_trivial) auto
    show ?thesis unfolding reflect_index_def mirror_index_def Let_def m using 3 by auto
  qed
qed

lemma uniform_filter1d_nth:
  assumes "i < length xs"
  shows "uniform_filter1d xs 5 ! i =
     (xs ! reflect_index (length xs) (int i - 2) + xs ! reflect_index (length xs) (int i - 1)
      + xs ! reflect_index (length xs) (int i) + xs ! reflect_index (length xs) (int i + 1)
      + xs ! reflect_index (length xs) (int i + 2)) / 5"
  using assms by (simp add: uniform_filter1d_def upt_0_5 ac_simps del: upt_Suc)

lemma reflect_index_single: "reflect_index (Suc 0) k = 0"
proof -
  have "k mod 2 = 0 \<or> k mod 2 = 1" by presburger
  then show ?thesis by (auto simp: reflect_index_def Let_def)
qed

lemma uniform_filter1d_single:
  assumes "length xs = 1"
  shows "uniform_filter1d xs 5 = xs"
proof -
  from assms obtain x where xs: "xs = [x]" by (cases xs) auto
  show ?thesis
    unfolding xs by (simp add: uniform_filter1d_def upt_0_5 reflect_index_single)
qed

text \<open>
  C2 (as amended). For every non-empty input the smoothing filter returns a sequence of
  the same length in which each element is the sum of five reads divided by five: the
  sample itself and two positions on each side, where a position outside the sequence is
  read by reflection about the edge (position \<open>-1\<close> reads sample 0, position \<open>-2\<close>
  sample 1, and likewise at the end; a single sample is returned as it is). Away from the
  boundaries this is the mean of the sample and its two neighbours on each side; at the
  boundaries the samples next to the edge are counted twice, and the divisor stays five.
\<close>

theorem smoothing_reflects_at_boundaries:
  assumes "xs \<noteq> []"
  shows "length (uniform_filter1d xs 5) = length xs
     \<and> (length xs = 1 \<longrightarrow> uniform_filter1d xs 5 = xs)
     \<and> (2 \<le> length xs \<longrightarrow> (\<forall>i<length xs. uniform_filter1d xs 5 ! i =
           (xs ! mirror_index (length xs) (int i - 2) + xs ! mirror_index (length xs) (int i - 1)
            + xs ! i + xs ! mirror_index (length xs) (int i + 1)
            + xs ! mirror_index (length xs) (int i + 2)) / 5))
     \<and> (\<forall>i. 2 \<le> i \<and> i + 2 < length xs \<longrightarrow> uniform_filter1d xs 5 ! i =
           (xs ! (i - 2) + xs ! (i - 1) + xs ! i + xs ! (i + 1) + xs ! (i + 2)) / 5)
     \<and> (3 \<le> length xs \<longrightarrow>
           uniform_filter1d xs 5 ! 0 = (xs ! 1 + xs ! 0 + xs ! 0 + xs ! 1 + xs ! 2) / 5)"
proof -
  let ?n = "length xs"
  have gen: "uniform_filter1d xs 5 ! i =
           (xs ! mirror_index ?n (int i - 2) + xs ! mirror_index ?n (int i - 1)
            + xs ! i + xs ! mirror_index ?n (int i + 1)
            + xs ! mirror_index ?n (int i + 2)) / 5" if n2: "2 \<le> ?n" and i: "i < ?n" for i
  proof -
    have r: "reflect_index ?n (int i - 2) = mirror_index ?n (int i - 2)"
      "reflect_index ?n (int i - 1) = mirror_index ?n (int i - 1)"
      "reflect_index ?n (int i) = i"
      "reflect_index ?n (int i + 1) = mirror_index ?n (int i + 1)"
      "reflect_index ?n (int i + 2) = mirror_index ?n (int i + 2)"
      using n2 i by (simp_all add: reflect_index_eq_mirror) (simp add: mirror_index_def)
    show ?thesis unfolding uniform_filter1d_nth[OF i] r ..
  qed
  have inner: "uniform_filter1d xs 5 ! i =
           (xs ! (i - 2) + xs ! (i - 1) + xs ! i + xs ! (i + 1) + xs ! (i + 2)) / 5"
    if i: "2 \<le> i \<and> i + 2 < ?n" for i
  proof -
    have "2 \<le> ?n" "i < ?n" using i by simp_all
    from gen[OF this] show ?thesis using i
      by (simp add: mirror_index_def nat_diff_distrib nat_add_distrib)
  qed
  have edge: "uniform_filter1d xs 5 ! 0 = (xs ! 1 + xs ! 0 + xs ! 0 + xs ! 1 + xs ! 2) / 5"
    if "3 \<le> ?n"
  proof -
    have "2 \<le> ?n" "0 < ?n" using that by linarith+
    from gen[OF this] show ?thesis using that by (simp add: mirror_index_def)
  qed
  show ?thesis
    using gen inner edge length_uniform_filter1d[of xs 5] uniform_filter1d_single[of xs]
    by blast
qed

theorem smoothing_reflects_at_boundaries_witness:
  "[0, 10, 20, 30, 40, 50 :: real] \<noteq> []
   \<and> uniform_filter1d [0, 10, 20, 30, 40, 50] 5 = [8, 12, 20, 30, 38, 42]
   \<and> uniform_filter1d [0, 10, 20, 30, 40, 50] 5 ! 0 = (10 + 0 + 0 + 10 + 20) / 5
   \<and> uniform_filter1d [0, 10, 20, 30, 40, 50] 5 ! 2 = (0 + 10 + 20 + 30 + 40) / 5"
proof -
  have ev: "uniform_filter1d [0, 10, 20, 30, 40, 50] 5 = [8, 12, 20, 30, 38, 42]"
    by code_simp
  show ?thesis
    using smoothing_reflects_at_boundaries[of "[0, 10, 20, 30, 40, 50]"] ev by simp
qed

text \<open>
  C2 as stated fails: the truncated mean of the first sample of 0, 10, 20, 30, 40, 50 is
  \<open>(0 + 10 + 20) / 3 = 10\<close>, and the filter returns \<open>(10 + 0 + 0 + 10 + 20) / 5 = 8\<close>.
\<close>

theorem smoothing_truncation_counterexample:
  "uniform_filter1d [0, 10, 20, 30, 40, 50] 5 = [8, 12, 20, 30, 38, 42]
   \<and> spec_truncated_filter [0, 10, 20, 30, 40, 50] = [10, 15, 20, 30, 35, 40]
   \<and> uniform_filter1d [0, 10, 20, 30, 40, 50] 5 \<noteq> spec_truncated_filter [0, 10, 20, 30, 40, 50]"
  by code_simp

section \<open>The sliding-extremum scan: what it computes\<close>

lemma finite_trailing_pairs: "finite (trailing_pairs W n)"
proof -
  have "trailing_pairs W n \<subseteq> {..<n} \<times> {..<n}" by (auto simp: trailing_pairs_def)
  then show ?thesis by (rule finite_subset) simp
qed

lemma trailing_pairs_Suc:
  "trailing_pairs W (Suc n) = trailing_pairs W n \<union> {(p, n) | p. p < n \<and> n \<le> p + W}"
  by (auto simp: trailing_pairs_def less_Suc_eq)

lemma set_drop_nth: "set (drop k xs) = {xs ! p | p. k \<le> p \<and> p < length xs}"
proof -
  have "set (drop k xs) = {drop k xs ! i | i. i < length (drop k xs)}" by (rule set_conv_nth)
  also have "\<dots> = {xs ! p | p. k \<le> p \<and> p < length xs}"
  proof (intro equalityI subsetI)
    fix y assume "y \<in> {drop k xs ! i | i. i < length (drop k xs)}"
    then obtain i where i: "y = drop k xs ! i" "i < length xs - k" by auto
    then have "y = xs ! (k + i)" "k \<le> k + i" "k + i < length xs" by auto
    then show "y \<in> {xs ! p | p. k \<le> p \<and> p < length xs}" by blast
  next
    fix y assume "y \<in> {xs ! p | p. k \<le> p \<and> p < length xs}"
    then obtain p where p: "y = xs ! p" "k \<le> p" "p < length xs" by auto
    then have "y = drop k xs ! (p - k)" "p - k < length (drop k xs)" by auto
    then show "y \<in> {drop k xs ! i | i. i < length (drop k xs)}" by blast
  qed
  finally show ?thesis .
qed

lemma pairs_image_step:
  "(\<lambda>(p, q). g ((seen @ [c]) ! p) ((seen @ [c]) ! q)) ` trailing_pairs W (Suc (length seen))
   = (\<lambda>(p, q). g (seen ! p) (seen ! q)) ` trailing_pairs W (length seen)
     \<union> (\<lambda>x. g x c) ` set (drop (length seen - W) seen)"
proof -
  let ?n = "length seen"
  have old: "(\<lambda>(p, q). g ((seen @ [c]) ! p) ((seen @ [c]) ! q)) ` trailing_pairs W ?n
      = (\<lambda>(p, q). g (seen ! p) (seen ! q)) ` trailing_pairs W ?n"
    by (rule image_cong) (auto simp: trailing_pairs_def nth_append)
  have new: "(\<lambda>(p, q). g ((seen @ [c]) ! p) ((seen @ [c]) ! q)) ` {(p, ?n) | p. p < ?n \<and> ?n \<le> p + W}
      = (\<lambda>x. g x c) ` set (drop (?n - W) seen)"
  proof -
    have "(\<lambda>(p, q). g ((seen @ [c]) ! p) ((seen @ [c]) ! q)) ` {(p, ?n) | p. p < ?n \<and> ?n \<le> p + W}
        = {g (seen ! p) c | p. p < ?n \<and> ?n \<le> p + W}"
      by (auto simp: nth_append image_iff)
    also have "\<dots> = {g (seen ! p) c | p. ?n - W \<le> p \<and> p < ?n}"
      by (rule Collect_cong) (metis le_diff_conv)
    also have "\<dots> = (\<lambda>x. g x c) ` set (drop (?n - W) seen)"
      unfolding set_drop_nth by blast
    finally show ?thesis .
  qed
  show ?thesis
    unfolding trailing_pairs_Suc image_Un old new ..
qed

lemma py_max_nonempty:
  assumes "xs \<noteq> []"
  shows "py_max xs = Inr (Max (set xs))"
proof -
  from assms obtain x xs' where xs: "xs = x # xs'" by (cases xs) auto
  show ?thesis unfolding xs py_max_def by (simp only: list.case Max.set_eq_fold)
qed

lemma running_max_step:
  assumes "seen \<noteq> []" and "0 < W"
  shows "py_max (map (\<lambda>x. g x c) (drop (length seen - W) seen))
           = Inr (Max ((\<lambda>x. g x c) ` set (drop (length seen - W) seen)))
     \<and> max (Max (insert a ((\<lambda>(p, q). g (seen ! p) (seen ! q)) ` trailing_pairs W (length seen))))
           (Max ((\<lambda>x. g x c) ` set (drop (length seen - W) seen)))
       = Max (insert a ((\<lambda>(p, q). g ((seen @ [c]) ! p) ((seen @ [c]) ! q))
                          ` trailing_pairs W (length (seen @ [c]))))"
proof -
  let ?B = "drop (length seen - W) seen"
  have ne: "?B \<noteq> []" using assms by (cases seen) auto
  have 1: "py_max (map (\<lambda>x. g x c) ?B) = Inr (Max ((\<lambda>x. g x c) ` set ?B))"
    using py_max_nonempty[of "map (\<lambda>x. g x c) ?B"] ne by simp
  let ?A = "insert a ((\<lambda>(p, q). g (seen ! p) (seen ! q)) ` trailing_pairs W (length seen))"
  have fA: "finite ?A" by (simp add: finite_trailing_pairs)
  have "Max (?A \<union> (\<lambda>x. g x c) ` set ?B) = max (Max ?A) (Max ((\<lambda>x. g x c) ` set ?B))"
    using fA ne by (intro Max.union) auto
  moreover have "insert a ((\<lambda>(p, q). g ((seen @ [c]) ! p) ((seen @ [c]) ! q))
                          ` trailing_pairs W (length (seen @ [c])))
      = ?A \<union> (\<lambda>x. g x c) ` set ?B"
    by (simp add: pairs_image_step)
  ultimately show ?thesis using 1 by simp
qed

lemma buffer_step:
  assumes "0 < W"
  shows "(if length (drop (length seen - W) seen @ [c]) = W + 1
          then drop 1 (drop (length seen - W) seen @ [c])
          else drop (length seen - W) seen @ [c])
         = drop (length (seen @ [c]) - W) (seen @ [c])"
proof (cases "W \<le> length seen")
  case True
  then have "length (drop (length seen - W) seen @ [c]) = W + 1" by simp
  moreover have "drop 1 (drop (length seen - W) seen @ [c])
      = drop (length (seen @ [c]) - W) (seen @ [c])"
    using True assms by (simp add: Suc_diff_le)
  ultimately show ?thesis by simp
next
  case False
  then show ?thesis by simp
qed

lemma max_drop_step:
  assumes "seen \<noteq> []" and "0 < W"
  shows "\<exists>M. py_max (map (\<lambda>x. x - c) (drop (length seen - W) seen)) = Inr M
           \<and> max (max_drop W seen) M = max_drop W (seen @ [c])"
  using running_max_step[OF assms, of "\<lambda>x y. x - y" c "- sys_maxsize - 1"]
  unfolding max_drop_def by blast

lemma max_rise_step:
  assumes "seen \<noteq> []" and "0 < W"
  shows "\<exists>M. py_max (map (\<lambda>x. c - x) (drop (length seen - W) seen)) = Inr M
           \<and> max (max_rise W seen) M = max_rise W (seen @ [c])"
  using running_max_step[OF assms, of "\<lambda>x y. y - x" c "- sys_maxsize - 1"]
  unfolding max_rise_def by blast

lemma trailing_pairs_one: "trailing_pairs W (Suc 0) = {}"
  by (auto simp: trailing_pairs_def)

lemma scan_inv_init: "scan_inv [first] (scan_init first)"
  by (simp add: scan_inv_def scan_init_def max_drop_def max_rise_def trailing_pairs_one)

lemma scan_inv_step:
  assumes inv: "scan_inv seen s" and ne: "seen \<noteq> []"
  shows "\<exists>s'. scan_step c s = Inr s' \<and> scan_inv (seen @ [c]) s'"
proof -
  from max_drop_step[OF ne, of 10 c] obtain f10 where f10:
    "py_max (map (\<lambda>x. x - c) (drop (length seen - 10) seen)) = Inr f10"
    "max (max_drop 10 seen) f10 = max_drop 10 (seen @ [c])" by auto
  from max_drop_step[OF ne, of 100 c] obtain f100 where f100:
    "py_max (map (\<lambda>x. x - c) (drop (length seen - 100) seen)) = Inr f100"
    "max (max_drop 100 seen) f100 = max_drop 100 (seen @ [c])" by auto
  from max_rise_step[OF ne, of 10 c] obtain p10 where p10:
    "py_max (map (\<lambda>x. c - x) (drop (length seen - 10) seen)) = Inr p10"
    "max (max_rise 10 seen) p10 = max_rise 10 (seen @ [c])" by auto
  from max_rise_step[OF ne, of 100 c] obtain p100 where p100:
    "py_max (map (\<lambda>x. c - x) (drop (length seen - 100) seen)) = Inr p100"
    "max (max_rise 100 seen) p100 = max_rise 100 (seen @ [c])" by auto
  have b10: "(if length (drop (length seen - 10) seen @ [c]) = 11
          then drop 1 (drop (length seen - 10) seen @ [c])
          else drop (length seen - 10) seen @ [c])
         = drop (length (seen @ [c]) - 10) (seen @ [c])"
    using buffer_step[of 10 seen c] by simp
  have b100: "(if length (drop (length seen - 100) seen @ [c]) = 101
          then drop 1 (drop (length seen - 100) seen @ [c])
          else drop (length seen - 100) seen @ [c])
         = drop (length (seen @ [c]) - 100) (seen @ [c])"
    using buffer_step[of 100 seen c] by simp
  define s' where "s' = \<lparr>wf_max_10 = max_drop 10 (seen @ [c]),
      wf_max_100 = max_drop 100 (seen @ [c]),
      wp_max_10 = max_rise 10 (seen @ [c]),
      wp_max_100 = max_rise 100 (seen @ [c]),
      array_to_compare_with_wf_10 = drop (length (seen @ [c]) - 10) (seen @ [c]),
      array_to_compare_with_wf_100 = drop (length (seen @ [c]) - 100) (seen @ [c])\<rparr>"
  have a: "array_to_compare_with_wf_10 s = drop (length seen - 10) seen"
    "array_to_compare_with_wf_100 s = drop (length seen - 100) seen"
    "wf_max_10 s = max_drop 10 seen" "wf_max_100 s = max_drop 100 seen"
    "wp_max_10 s = max_rise 10 seen" "wp_max_100 s = max_rise 100 seen"
    using inv by (simp_all add: scan_inv_def)
  have "scan_step c s = Inr s'"
    unfolding scan_step_def a Let_def
    by (simp only: f10 f100 p10 p100 b10 b100 sum.case s'_def)
  moreover have "scan_inv (seen @ [c]) s'"
    by (simp add: scan_inv_def s'_def)
  ultimately show ?thesis by blast
qed

lemma scan_fold_inv:
  "\<exists>s. foldE scan_step ys (scan_init first) = Inr s \<and> scan_inv (first # ys) s"
proof (induction ys rule: rev_induct)
  case Nil
  then show ?case by (simp add: scan_inv_init)
next
  case (snoc c ys)
  then obtain s where s: "foldE scan_step ys (scan_init first) = Inr s"
    "scan_inv (first # ys) s" by blast
  from scan_inv_step[OF s(2), of c] obtain s' where s':
    "scan_step c s = Inr s'" "scan_inv ((first # ys) @ [c]) s'" by auto
  have "foldE scan_step (ys @ [c]) (scan_init first) = Inr s'"
    by (simp add: foldE_append s(1) s'(1))
  then show ?case using s'(2) by simp
qed

lemma windowed_scan_inv:
  assumes "500 < length row"
  shows "\<exists>s. windowed_scan row = Inr s \<and> scan_inv (drop 500 row) s"
proof -
  have d: "drop 500 row = row ! 500 # drop 501 row"
    using Cons_nth_drop_Suc[OF assms] by simp
  show ?thesis
    unfolding windowed_scan_def d using assms scan_fold_inv[of "drop 501 row" "row ! 500"]
    by simp
qed

lemma trailing_pairs_mono: "W \<le> W' \<Longrightarrow> trailing_pairs W n \<subseteq> trailing_pairs W' n"
  by (auto simp: trailing_pairs_def)

lemma max_drop_mono:
  assumes "W \<le> W'"
  shows "max_drop W seen \<le> max_drop W' seen"
  unfolding max_drop_def
  using trailing_pairs_mono[OF assms, of "length seen"]
  by (intro Max_mono) (auto simp: finite_trailing_pairs)

lemma max_rise_mono:
  assumes "W \<le> W'"
  shows "max_rise W seen \<le> max_rise W' seen"
  unfolding max_rise_def
  using trailing_pairs_mono[OF assms, of "length seen"]
  by (intro Max_mono) (auto simp: finite_trailing_pairs)

lemma drop_suffix_split:
  assumes "a \<le> b"
  shows "drop a xs = take (b - a) (drop a xs) @ drop b xs"
proof -
  have e: "drop (b - a) (drop a xs) = drop b xs" using assms by simp
  show ?thesis unfolding e[symmetric] by (rule append_take_drop_id[symmetric])
qed

lemma length_scan_row: "length scan_row = 512"
  by (simp add: scan_row_def)

lemma sentinel_below:
  assumes "2 \<le> length seen" and "0 < W"
    and "\<forall>p q. p < length seen \<and> q < length seen \<longrightarrow> a \<le> g (seen ! p) (seen ! q)"
  shows "Max (insert a ((\<lambda>(p, q). g (seen ! p) (seen ! q)) ` trailing_pairs W (length seen)))
       = Max ((\<lambda>(p, q). g (seen ! p) (seen ! q)) ` trailing_pairs W (length seen))"
proof -
  let ?A = "(\<lambda>(p, q). g (seen ! p) (seen ! q)) ` trailing_pairs W (length seen)"
  have in_tp: "(0, 1) \<in> trailing_pairs W (length seen)"
    using assms(1,2) by (auto simp: trailing_pairs_def)
  then have mem: "g (seen ! 0) (seen ! 1) \<in> ?A" by force
  have fin: "finite ?A" by (simp add: finite_trailing_pairs)
  have ne: "?A \<noteq> {}" using mem by blast
  have "0 < length seen \<and> 1 < length seen" using assms(1) by linarith
  then have "a \<le> g (seen ! 0) (seen ! 1)" using assms(3) by blast
  also have "\<dots> \<le> Max ?A" using fin mem by (rule Max_ge)
  finally have "a \<le> Max ?A" .
  then show ?thesis using fin ne by (simp add: max_def)
qed

lemma accuracy_differences_above_sentinel:
  assumes "\<forall>x\<in>set seen. 0 \<le> x \<and> x \<le> (100::real)"
  shows "\<forall>p q. p < length seen \<and> q < length seen \<longrightarrow> - sys_maxsize - 1 \<le> seen ! p - seen ! q"
proof (intro allI impI)
  fix p q assume pq: "p < length seen \<and> q < length seen"
  then have "seen ! p \<in> set seen" "seen ! q \<in> set seen" by simp_all
  then have "0 \<le> seen ! p" "seen ! q \<le> 100" using assms by auto
  then show "- sys_maxsize - 1 \<le> seen ! p - seen ! q" by (simp add: sys_maxsize_def)
qed

lemma max_drop_accuracies:
  assumes "2 \<le> length seen" and "0 < W" and "\<forall>x\<in>set seen. 0 \<le> x \<and> x \<le> (100::real)"
  shows "max_drop W seen = Max ((\<lambda>(p, q). seen ! p - seen ! q) ` trailing_pairs W (length seen))"
  unfolding max_drop_def
  using sentinel_below[OF assms(1,2), of "- sys_maxsize - 1" "\<lambda>x y. x - y"]
    accuracy_differences_above_sentinel[OF assms(3)]
  by simp

lemma max_rise_accuracies:
  assumes "2 \<le> length seen" and "0 < W" and "\<forall>x\<in>set seen. 0 \<le> x \<and> x \<le> (100::real)"
  shows "max_rise W seen = Max ((\<lambda>(p, q). seen ! q - seen ! p) ` trailing_pairs W (length seen))"
proof -
  have "\<forall>p q. p < length seen \<and> q < length seen \<longrightarrow> - sys_maxsize - 1 \<le> seen ! q - seen ! p"
    using accuracy_differences_above_sentinel[OF assms(3)] by blast
  then show ?thesis
    unfolding max_rise_def
    using sentinel_below[OF assms(1,2), of "- sys_maxsize - 1" "\<lambda>x y. y - x"]
    by simp
qed

lemma max_drop_eqI:
  assumes "(p, q) \<in> trailing_pairs W (length seen)" and "seen ! p - seen ! q = d"
    and "\<forall>x\<in>set seen. lo \<le> x \<and> x \<le> lo + d" and "- sys_maxsize - 1 \<le> d"
  shows "max_drop W seen = d"
  unfolding max_drop_def
proof (rule Max_eqI)
  show "finite (insert (- sys_maxsize - 1)
      ((\<lambda>(p, q). seen ! p - seen ! q) ` trailing_pairs W (length seen)))"
    by (simp add: finite_trailing_pairs)
next
  fix y
  assume "y \<in> insert (- sys_maxsize - 1)
      ((\<lambda>(p, q). seen ! p - seen ! q) ` trailing_pairs W (length seen))"
  then consider "y = - sys_maxsize - 1"
    | p' q' where "y = seen ! p' - seen ! q'" "p' < length seen" "q' < length seen"
    by (auto simp: trailing_pairs_def)
  then show "y \<le> d"
  proof cases
    case 1
    then show ?thesis using assms(4) by simp
  next
    case 2
    then have "seen ! p' \<in> set seen" "seen ! q' \<in> set seen" by simp_all
    then have "seen ! p' \<le> lo + d" "lo \<le> seen ! q'" using assms(3) by auto
    then show ?thesis using 2(1) by simp
  qed
next
  have "(\<lambda>(p, q). seen ! p - seen ! q) (p, q) = d" using assms(2) by simp
  then show "d \<in> insert (- sys_maxsize - 1)
      ((\<lambda>(p, q). seen ! p - seen ! q) ` trailing_pairs W (length seen))"
    using assms(1) by (metis image_eqI insertI2)
qed

lemma length_gap_row: "length gap_row = 1000"
  by (simp add: gap_row_def)

lemma seen_gap_row: "drop 500 gap_row = [95] @ replicate 9 90 @ replicate 490 85"
  by (simp add: gap_row_def)

lemma gap_row_wf_max_10: "map_sum id wf_max_10 (windowed_scan gap_row) = Inr 10"
proof -
  have l: "500 < length gap_row" by (simp add: length_gap_row)
  from windowed_scan_inv[OF l] obtain s where s:
    "windowed_scan gap_row = Inr s" "scan_inv (drop 500 gap_row) s" by blast
  let ?seen = "[95] @ replicate 9 90 @ replicate 490 (85 :: real)"
  have "max_drop 10 ?seen = 10"
  proof (rule max_drop_eqI[where p = 0 and q = 10 and lo = 85])
    show "(0, 10) \<in> trailing_pairs 10 (length ?seen)" by (simp add: trailing_pairs_def)
    show "?seen ! 0 - ?seen ! 10 = 10" by (simp add: nth_append)
    show "\<forall>x\<in>set ?seen. 85 \<le> x \<and> x \<le> 85 + 10" by auto
    show "- sys_maxsize - 1 \<le> 10" by (simp add: sys_maxsize_def)
  qed
  then have "wf_max_10 s = 10" using s(2) by (simp add: scan_inv_def seen_gap_row)
  then show ?thesis by (simp add: s(1))
qed

text \<open>
  C4 (as amended). For every row the program scans (more than 500 samples), and with
  \<open>seen\<close> the samples from index 500 on: each array holds the last \<open>W\<close> samples seen,
  and a new sample is compared with the array before it is appended to it (the oldest
  sample leaves when there are more than \<open>W\<close>), so each sample is compared with the
  \<open>W\<close> samples before it; \<open>WF[W]\<close> is the maximum of earlier minus later, \<open>WP[W]\<close>
  of later minus earlier, over all pairs of positions at most \<open>W\<close> apart. The maxima start
  at negative infinity in effect: where the samples are accuracies between 0 and 100 and
  the tail has a sample to compare, the result is the maximum of the differences alone
  (the value the program starts from, \<open>-sys.maxsize - 1\<close>, lies below all of them).
\<close>

theorem sliding_scan_characterisation:
  assumes "500 < length row"
  shows "\<exists>s. windowed_scan row = Inr s
     \<and> array_to_compare_with_wf_10 s = drop (length (drop 500 row) - 10) (drop 500 row)
     \<and> array_to_compare_with_wf_100 s = drop (length (drop 500 row) - 100) (drop 500 row)
     \<and> wf_max_10 s = max_drop 10 (drop 500 row)
     \<and> wf_max_100 s = max_drop 100 (drop 500 row)
     \<and> wp_max_10 s = max_rise 10 (drop 500 row)
     \<and> wp_max_100 s = max_rise 100 (drop 500 row)
     \<and> (501 < length row \<and> (\<forall>x\<in>set (drop 500 row). 0 \<le> x \<and> x \<le> 100) \<longrightarrow>
          wf_max_10 s = Max ((\<lambda>(p, q). drop 500 row ! p - drop 500 row ! q)
                              ` trailing_pairs 10 (length (drop 500 row)))
        \<and> wf_max_100 s = Max ((\<lambda>(p, q). drop 500 row ! p - drop 500 row ! q)
                              ` trailing_pairs 100 (length (drop 500 row)))
        \<and> wp_max_10 s = Max ((\<lambda>(p, q). drop 500 row ! q - drop 500 row ! p)
                              ` trailing_pairs 10 (length (drop 500 row)))
        \<and> wp_max_100 s = Max ((\<lambda>(p, q). drop 500 row ! q - drop 500 row ! p)
                              ` trailing_pairs 100 (length (drop 500 row))))"
proof -
  let ?seen = "drop 500 row"
  from windowed_scan_inv[OF assms] obtain s where s:
    "windowed_scan row = Inr s" "scan_inv ?seen s" by blast
  have acc: "wf_max_10 s = Max ((\<lambda>(p, q). ?seen ! p - ?seen ! q) ` trailing_pairs 10 (length ?seen))
        \<and> wf_max_100 s = Max ((\<lambda>(p, q). ?seen ! p - ?seen ! q) ` trailing_pairs 100 (length ?seen))
        \<and> wp_max_10 s = Max ((\<lambda>(p, q). ?seen ! q - ?seen ! p) ` trailing_pairs 10 (length ?seen))
        \<and> wp_max_100 s = Max ((\<lambda>(p, q). ?seen ! q - ?seen ! p) ` trailing_pairs 100 (length ?seen))"
    if h: "501 < length row \<and> (\<forall>x\<in>set ?seen. 0 \<le> x \<and> x \<le> 100)"
  proof -
    have "501 < length row" using h by blast
    then have l: "2 \<le> length ?seen" by simp
    have b: "\<forall>x\<in>set ?seen. 0 \<le> x \<and> x \<le> 100" using h by simp
    show ?thesis
      using s(2) max_drop_accuracies[OF l _ b, of 10] max_drop_accuracies[OF l _ b, of 100]
        max_rise_accuracies[OF l _ b, of 10] max_rise_accuracies[OF l _ b, of 100]
      by (simp add: scan_inv_def)
  qed
  have inv: "array_to_compare_with_wf_10 s = drop (length ?seen - 10) ?seen"
    "array_to_compare_with_wf_100 s = drop (length ?seen - 100) ?seen"
    "wf_max_10 s = max_drop 10 ?seen" "wf_max_100 s = max_drop 100 ?seen"
    "wp_max_10 s = max_rise 10 ?seen" "wp_max_100 s = max_rise 100 ?seen"
    using s(2) by (simp_all add: scan_inv_def)
  show ?thesis
    using s(1) inv acc by blast
qed

theorem sliding_scan_characterisation_witness:
  "500 < length gap_row \<and> 501 < length gap_row
   \<and> list_all (\<lambda>x. 0 \<le> x \<and> x \<le> 100) (drop 500 gap_row)
   \<and> map_sum id wf_max_10 (windowed_scan gap_row) = Inr 10
   \<and> (\<exists>s. windowed_scan gap_row = Inr s
     \<and> array_to_compare_with_wf_10 s = drop (length (drop 500 gap_row) - 10) (drop 500 gap_row)
     \<and> array_to_compare_with_wf_100 s = drop (length (drop 500 gap_row) - 100) (drop 500 gap_row)
     \<and> wf_max_10 s = max_drop 10 (drop 500 gap_row)
     \<and> wf_max_100 s = max_drop 100 (drop 500 gap_row)
     \<and> wp_max_10 s = max_rise 10 (drop 500 gap_row)
     \<and> wp_max_100 s = max_rise 100 (drop 500 gap_row)
     \<and> wf_max_10 s = Max ((\<lambda>(p, q). drop 500 gap_row ! p - drop 500 gap_row ! q)
                              ` trailing_pairs 10 (length (drop 500 gap_row)))
     \<and> wf_max_100 s = Max ((\<lambda>(p, q). drop 500 gap_row ! p - drop 500 gap_row ! q)
                              ` trailing_pairs 100 (length (drop 500 gap_row)))
     \<and> wp_max_10 s = Max ((\<lambda>(p, q). drop 500 gap_row ! q - drop 500 gap_row ! p)
                              ` trailing_pairs 10 (length (drop 500 gap_row)))
     \<and> wp_max_100 s = Max ((\<lambda>(p, q). drop 500 gap_row ! q - drop 500 gap_row ! p)
                              ` trailing_pairs 100 (length (drop 500 gap_row))))"
proof -
  have l: "500 < length gap_row" "501 < length gap_row" by (simp_all add: length_gap_row)
  have b: "list_all (\<lambda>x. 0 \<le> x \<and> x \<le> 100) (drop 500 gap_row)"
    by (simp add: seen_gap_row list_all_iff)
  then have b': "\<forall>x\<in>set (drop 500 gap_row). 0 \<le> x \<and> x \<le> 100"
    by (simp add: list_all_iff)
  from sliding_scan_characterisation[OF l(1)] show ?thesis
    using l b b' gap_row_wf_max_10 by blast
qed

text \<open>
  C4 as stated fails on the extent of the window. \<open>gap_row\<close> is a row of 1000 accuracies
  in which the accuracy falls from 95 to 85 over exactly ten samples. The program compares
  each sample with the ten before it and finds \<open>WF10 = 10\<close>; a window of ten samples that
  includes the current one has only the nine before it, and the scan in the claim's words
  gives \<open>WF10 = 5\<close>.
\<close>

theorem trailing_window_counterexample:
  "length gap_row = 1000
   \<and> list_all (\<lambda>x. 0 \<le> x \<and> x \<le> 100) gap_row
   \<and> map_sum id wf_max_10 (windowed_scan gap_row) = Inr 10
   \<and> fst (spec_scan 10 (drop 500 gap_row)) = Some 5"
proof -
  have a: "list_all (\<lambda>x. 0 \<le> x \<and> x \<le> 100) gap_row"
    by (simp add: gap_row_def list_all_iff)
  have b: "fst (spec_scan 10 (drop 500 gap_row)) = Some 5"
    by code_simp
  show ?thesis using length_gap_row a gap_row_wf_max_10 b by simp
qed

text \<open>
  C10. For every row the scan reads (more than 500 samples), \<open>WF10 \<le> WF100\<close> and
  \<open>WP10 \<le> WP100\<close>, and the array of the last 10 samples is a suffix of the array of the
  last 100.
\<close>

theorem window_10_below_window_100:
  assumes "500 < length row"
  shows "\<exists>s. windowed_scan row = Inr s
     \<and> wf_max_10 s \<le> wf_max_100 s \<and> wp_max_10 s \<le> wp_max_100 s
     \<and> (\<exists>zs. array_to_compare_with_wf_100 s = zs @ array_to_compare_with_wf_10 s)"
proof -
  from windowed_scan_inv[OF assms] obtain s where s:
    "windowed_scan row = Inr s" "scan_inv (drop 500 row) s" by blast
  let ?seen = "drop 500 row"
  have f: "wf_max_10 s \<le> wf_max_100 s"
    using s(2) max_drop_mono[of 10 100 ?seen] by (simp add: scan_inv_def)
  have p: "wp_max_10 s \<le> wp_max_100 s"
    using s(2) max_rise_mono[of 10 100 ?seen] by (simp add: scan_inv_def)
  have "length ?seen - 100 \<le> length ?seen - 10" by simp
  from drop_suffix_split[OF this, of ?seen]
  have "array_to_compare_with_wf_100 s
      = take (length ?seen - 10 - (length ?seen - 100)) (drop (length ?seen - 100) ?seen)
        @ array_to_compare_with_wf_10 s"
    using s(2) by (simp only: scan_inv_def)
  then have "\<exists>zs. array_to_compare_with_wf_100 s = zs @ array_to_compare_with_wf_10 s"
    by blast
  then show ?thesis using s(1) f p by blast
qed

theorem window_10_below_window_100_witness:
  "500 < length scan_row
   \<and> map_sum id (\<lambda>s. (wf_max_10 s, wf_max_100 s, wp_max_10 s, wp_max_100 s))
        (windowed_scan scan_row) = Inr (5, 10, 0, 0)
   \<and> (\<exists>s. windowed_scan scan_row = Inr s
     \<and> wf_max_10 s \<le> wf_max_100 s \<and> wp_max_10 s \<le> wp_max_100 s
     \<and> (\<exists>zs. array_to_compare_with_wf_100 s = zs @ array_to_compare_with_wf_10 s))"
proof -
  have a: "map_sum id (\<lambda>s. (wf_max_10 s, wf_max_100 s, wp_max_10 s, wp_max_100 s))
        (windowed_scan scan_row) = Inr (5, 10, 0, 0)"
    by code_simp
  have l: "500 < length scan_row" by (simp add: length_scan_row)
  from window_10_below_window_100[OF l] show ?thesis using a l by blast
qed

end
